theory Spec2Isabelle
  imports Complex_Main
begin

section \<open>Evacuation drill simulator: embedding of simulation.py\<close>

text \<open>
  Python floats are read as real numbers and Python ints as integers. The random
  module is an input: every function that draws a random number takes the drawn
  value as an argument. Exceptions are values of \<open>py_error\<close>.
\<close>

datatype py_error = ValueError | IndexError | ZeroDivisionError | EmptySchedule

subsection \<open>Configuration\<close>

definition WIDTH :: int where "WIDTH = 1200"
definition HEIGHT :: int where "HEIGHT = 650"
definition SIM_WIDTH :: int where "SIM_WIDTH = 900"
definition DT :: real where "DT = 1 / 10"
definition NUM_PEOPLE :: nat where "NUM_PEOPLE = 45"
definition BASE_SPEED :: real where "BASE_SPEED = 11 / 10"
definition PANIC_MULT :: real where "PANIC_MULT = 18 / 10"
definition SMOKE_RADIUS :: real where "SMOKE_RADIUS = 90"

definition EXIT_POSITIONS :: "(real \<times> real) list" where
  "EXIT_POSITIONS = [(850, 120), (850, 530)]"

subsection \<open>Rectangles\<close>

text \<open>
  \<open>pygame.Rect\<close> is library code. A Rect stores four machine integers; a float
  argument of the constructor is converted by a C cast, which drops the fraction
  (rounds toward zero). \<open>colliderect\<close> is false when either rectangle has a zero
  width or height, and otherwise compares the half-open extents, so rectangles that
  only share an edge do not collide.
\<close>

record rect =
  rect_x :: int
  rect_y :: int
  rect_w :: int
  rect_h :: int

definition to_int :: "real \<Rightarrow> int" where
  "to_int r = (if 0 \<le> r then \<lfloor>r\<rfloor> else \<lceil>r\<rceil>)"

definition Rect :: "real \<Rightarrow> real \<Rightarrow> real \<Rightarrow> real \<Rightarrow> rect" where
  "Rect a b c d = \<lparr>rect_x = to_int a, rect_y = to_int b, rect_w = to_int c, rect_h = to_int d\<rparr>"

definition colliderect :: "rect \<Rightarrow> rect \<Rightarrow> bool" where
  "colliderect A B =
     (if rect_w A = 0 \<or> rect_h A = 0 \<or> rect_w B = 0 \<or> rect_h B = 0 then False
      else min (rect_x A) (rect_x A + rect_w A) < max (rect_x B) (rect_x B + rect_w B)
         \<and> min (rect_y A) (rect_y A + rect_h A) < max (rect_y B) (rect_y B + rect_h B)
         \<and> max (rect_x A) (rect_x A + rect_w A) > min (rect_x B) (rect_x B + rect_w B)
         \<and> max (rect_y A) (rect_y A + rect_h A) > min (rect_y B) (rect_y B + rect_h B))"

definition WALLS :: "rect list" where
  "WALLS = [Rect 250 0 30 450, Rect 500 200 30 450, Rect 100 350 200 30]"

subsection \<open>Distance\<close>

definition hypot :: "real \<Rightarrow> real \<Rightarrow> real" where
  "hypot a b = sqrt (a * a + b * b)"

definition dist_pt :: "real \<times> real \<Rightarrow> real \<times> real \<Rightarrow> real" where
  "dist_pt a b = hypot (fst a - fst b) (snd a - snd b)"

subsection \<open>Random draws\<close>

text \<open>
  \<open>random.randint lo hi\<close> returns an integer of \<open>[lo, hi]\<close>, \<open>random.choice\<close> an
  element of a non-empty sequence (IndexError on an empty one), and
  \<open>random.uniform a b\<close> is \<open>a + (b - a) * random()\<close>. The argument \<open>r\<close> is the raw
  draw of the generator.
\<close>

definition randint :: "int \<Rightarrow> int \<Rightarrow> int \<Rightarrow> int" where
  "randint lo hi r = lo + r mod (hi - lo + 1)"

definition choice :: "'a list \<Rightarrow> nat \<Rightarrow> py_error + 'a" where
  "choice xs r = (if xs = [] then Inl IndexError else Inr (xs ! (r mod length xs)))"

definition uniform :: "real \<Rightarrow> real \<Rightarrow> real \<Rightarrow> real" where
  "uniform a b t = a + (b - a) * t"

subsection \<open>Fire\<close>

text \<open>
  \<open>spread_procs\<close> counts the \<open>spread\<close> generators that \<open>ignite\<close> has handed to
  \<open>env.process\<close>: the scheduled spread behaviour. Their events are in the queue
  of the session, below.
\<close>

record fire =
  cells :: "(int \<times> int) list"
  active :: bool
  spread_procs :: nat

definition Fire_init :: fire where
  "Fire_init = \<lparr>cells = [], active = False, spread_procs = 0\<rparr>"

definition ignite :: "fire \<Rightarrow> int \<Rightarrow> int \<Rightarrow> fire" where
  "ignite f a b =
     f\<lparr>cells := cells f @ [(a, b)], active := True, spread_procs := Suc (spread_procs f)\<rparr>"

text \<open>
  One round of the loop of \<open>spread\<close>, after its timeout has elapsed: the arguments
  are the three random draws. The loop runs only while the fire is active.
\<close>

definition spread :: "fire \<Rightarrow> nat \<Rightarrow> int \<Rightarrow> int \<Rightarrow> py_error + fire" where
  "spread f rc rx ry =
     (if \<not> active f then Inr f
      else case choice (cells f) rc of
        Inl e \<Rightarrow> Inl e
      | Inr (a, b) \<Rightarrow>
          let nx = max 50 (min (SIM_WIDTH - 50) (a + randint (- 50) 50 rx));
              ny = max 50 (min (HEIGHT - 50) (b + randint (- 50) 50 ry))
          in Inr (f\<lparr>cells := cells f @ [(nx, ny)]\<rparr>))"

subsection \<open>Person\<close>

record person =
  pos_x :: real
  pos_y :: real
  speed :: real
  panic :: real
  evacuated :: bool

definition Person_init :: "real \<Rightarrow> real \<Rightarrow> real \<Rightarrow> person" where
  "Person_init a b t =
     \<lparr>pos_x = a, pos_y = b, speed = BASE_SPEED * uniform (8 / 10) (12 / 10) t,
      panic = 0, evacuated = False\<rparr>"

text \<open>The loop over the fire cells in \<open>update\<close>: the panic after it.\<close>

primrec smoke_panic :: "real \<times> real \<Rightarrow> (real \<times> real) list \<Rightarrow> real \<Rightarrow> real" where
  "smoke_panic pos [] pn = pn"
| "smoke_panic pos (c # cs) pn =
     smoke_panic pos cs (if dist_pt pos c < SMOKE_RADIUS then min 1 (pn + 25 / 1000) else pn)"

text \<open>Python's \<open>min(xs, key=k)\<close>: the first element with the least key; ValueError on [].\<close>

primrec min_from :: "('a \<Rightarrow> real) \<Rightarrow> 'a \<Rightarrow> 'a list \<Rightarrow> 'a" where
  "min_from k best [] = best"
| "min_from k best (c # cs) = min_from k (if k c < k best then c else best) cs"

definition min_key :: "('a \<Rightarrow> real) \<Rightarrow> 'a list \<Rightarrow> py_error + 'a" where
  "min_key k xs = (case xs of [] \<Rightarrow> Inl ValueError | c # cs \<Rightarrow> Inr (min_from k c cs))"

text \<open>The loop over the walls in \<open>update\<close>: true when it returns early.\<close>

primrec hits_wall :: "rect list \<Rightarrow> rect \<Rightarrow> bool" where
  "hits_wall [] r = False"
| "hits_wall (w # ws) r = (if colliderect w r then True else hits_wall ws r)"

text \<open>Python's division of floats: ZeroDivisionError when the divisor is zero.\<close>

definition py_div :: "real \<Rightarrow> real \<Rightarrow> py_error + real" where
  "py_div a b = (if b = 0 then Inl ZeroDivisionError else Inr (a / b))"

text \<open>
  Lines 87 and 90 to 94 of \<open>update\<close>: the candidate position, from the panic \<open>pn\<close>
  after the loop over the fire cells and the chosen exit \<open>e\<close>. \<open>hypot dx dy or 1\<close>
  is 1 when the distance is zero. The two divisions are done in the order of the
  source, and the first that fails ends the call.
\<close>

definition next_pos :: "person \<Rightarrow> real \<Rightarrow> real \<times> real \<Rightarrow> py_error + real \<times> real" where
  "next_pos p pn e =
     (let spd = speed p * (1 + pn * PANIC_MULT);
          dx = fst e - pos_x p;
          dy = snd e - pos_y p;
          d = (if hypot dx dy = 0 then 1 else hypot dx dy)
      in case py_div (spd * dx) d of
           Inl err \<Rightarrow> Inl err
         | Inr qx \<Rightarrow>
             (case py_div (spd * dy) d of
                Inl err \<Rightarrow> Inl err
              | Inr qy \<Rightarrow> Inr (pos_x p + qx, pos_y p + qy)))"

text \<open>
  \<open>Person.update\<close>, with the module constants \<open>EXIT_POSITIONS\<close> and \<open>WALLS\<close> as
  the first two arguments; \<open>update\<close> below fixes them to the module's values.
\<close>

definition update_in ::
  "(real \<times> real) list \<Rightarrow> rect list \<Rightarrow> person \<Rightarrow> (real \<times> real) list \<Rightarrow> bool
     \<Rightarrow> py_error + person" where
  "update_in exits walls p fire_cells al =
     (if \<not> al \<or> evacuated p then Inr p
      else
        let pn = smoke_panic (pos_x p, pos_y p) fire_cells (panic p);
            p1 = p\<lparr>panic := pn\<rparr>
        in case min_key (\<lambda>e. dist_pt (pos_x p, pos_y p) e) exits of
          Inl err \<Rightarrow> Inl err
        | Inr e \<Rightarrow>
            (case next_pos p pn e of
               Inl err \<Rightarrow> Inl err
             | Inr n \<Rightarrow>
                 let r = Rect (fst n - 5) (snd n - 5) 10 10
                 in if hits_wall walls r then Inr p1
                    else
                      let p2 = p1\<lparr>pos_x := fst n, pos_y := snd n\<rparr>
                      in if dist_pt (pos_x p2, pos_y p2) e < 12
                         then Inr (p2\<lparr>evacuated := True\<rparr>)
                         else Inr p2))"

definition update :: "person \<Rightarrow> (real \<times> real) list \<Rightarrow> bool \<Rightarrow> py_error + person" where
  "update = update_in EXIT_POSITIONS WALLS"

text \<open>
  The collision claim speaks of the 10 by 10 box centred on a position, in the
  coordinates of the position itself, and of its intersecting a wall. With the
  edge convention of \<open>colliderect\<close> (touching edges do not intersect), the box
  centred on \<open>c\<close> intersects the wall \<open>w\<close> when:
\<close>

definition centred_box_intersects :: "real \<times> real \<Rightarrow> rect \<Rightarrow> bool" where
  "centred_box_intersects c w =
     (fst c - 5 < of_int (rect_x w + rect_w w) \<and> of_int (rect_x w) < fst c + 5
      \<and> snd c - 5 < of_int (rect_y w + rect_h w) \<and> of_int (rect_y w) < snd c + 5)"

text \<open>
  A sequence of \<open>update\<close> calls on one person, each with its own arguments:
  \<open>updates\<close> gives the last state, \<open>update_trace\<close> every state in order.
\<close>

fun updates ::
  "person \<Rightarrow> ((real \<times> real) list \<times> bool) list \<Rightarrow> py_error + person" where
  "updates p [] = Inr p"
| "updates p ((cs, al) # rest) =
     (case update p cs al of Inl e \<Rightarrow> Inl e | Inr p' \<Rightarrow> updates p' rest)"

fun update_trace ::
  "person \<Rightarrow> ((real \<times> real) list \<times> bool) list \<Rightarrow> py_error + person list" where
  "update_trace p [] = Inr [p]"
| "update_trace p ((cs, al) # rest) =
     (case update p cs al of
        Inl e \<Rightarrow> Inl e
      | Inr p' \<Rightarrow> (case update_trace p' rest of Inl e \<Rightarrow> Inl e | Inr ps \<Rightarrow> Inr (p # ps)))"

subsection \<open>The session\<close>

text \<open>
  The events that wait in the queue of the simpy environment. \<open>env.process\<close>
  queues an Initialize event for the generator; a generator that yields
  \<open>env.timeout\<close> waits for that Timeout event; a generator that returns queues its
  Process as one last event. For \<open>Person.behavior\<close> of person \<open>j\<close> the Initialize and
  the Timeout events do the same (test the loop condition), so both are
  \<open>Behavior j\<close>. For \<open>Fire.spread\<close>, \<open>Spread_init\<close> is the Initialize event (it runs
  to the first \<open>yield\<close>) and \<open>Spread_timeout\<close> a Timeout event (it runs one round of
  the loop). \<open>Ended\<close> is the event of a generator that has returned.
\<close>

datatype event = Behavior nat | Spread_init | Spread_timeout | Ended

text \<open>
  The module globals \<open>people\<close>, \<open>fire\<close>, \<open>alarm_on\<close> and \<open>env\<close>; of the
  environment, \<open>sched\<close> holds the events that are queued. The people and the
  environment are created together, at start and in \<open>reset\<close>.
\<close>

record world =
  people :: "person list"
  fire :: fire
  alarm_on :: bool
  sched :: "event list"

text \<open>
  The list comprehension that builds the people: \<open>rnd i\<close> holds the three raw
  draws of person \<open>i\<close> (two \<open>randint\<close> and the \<open>random()\<close> behind \<open>uniform\<close>).
  \<open>Person.__init__\<close> hands \<open>self.behavior()\<close> to \<open>env.process\<close>, so a fresh
  session has one \<open>Behavior\<close> event queued for each person.
\<close>

definition new_people :: "(nat \<Rightarrow> int \<times> int \<times> real) \<Rightarrow> person list" where
  "new_people rnd =
     map (\<lambda>i. case rnd i of (rx, ry, t) \<Rightarrow>
            Person_init (of_int (randint 50 700 rx)) (of_int (randint 50 600 ry)) t)
       [0..<NUM_PEOPLE]"

definition init_world :: "(nat \<Rightarrow> int \<times> int \<times> real) \<Rightarrow> world" where
  "init_world rnd =
     \<lparr>people = new_people rnd, fire = Fire_init, alarm_on = False,
      sched = map Behavior [0..<NUM_PEOPLE]\<rparr>"

definition alarm :: "world \<Rightarrow> world" where
  "alarm w = w\<lparr>alarm_on := True\<rparr>"

text \<open>
  \<open>start_fire\<close>: the call of \<open>env.process\<close> inside \<open>ignite\<close> queues the Initialize
  event of the new \<open>spread\<close> generator.
\<close>

definition start_fire :: "world \<Rightarrow> world" where
  "start_fire w =
     (if \<not> active (fire w)
      then w\<lparr>fire := ignite (fire w) 450 300, sched := sched w @ [Spread_init]\<rparr>
      else w)"

definition reset :: "world \<Rightarrow> (nat \<Rightarrow> int \<times> int \<times> real) \<Rightarrow> world" where
  "reset w rnd = init_world rnd"

text \<open>The loop \<open>for p in people: p.update(fire.cells, alarm_on)\<close> of the main loop.\<close>

fun update_all ::
  "person list \<Rightarrow> (real \<times> real) list \<Rightarrow> bool \<Rightarrow> py_error + person list" where
  "update_all [] cs al = Inr []"
| "update_all (p # ps) cs al =
     (case update p cs al of
        Inl e \<Rightarrow> Inl e
      | Inr p' \<Rightarrow> (case update_all ps cs al of Inl e \<Rightarrow> Inl e | Inr ps' \<Rightarrow> Inr (p' # ps')))"

definition real_cells :: "(int \<times> int) list \<Rightarrow> (real \<times> real) list" where
  "real_cells cs = map (\<lambda>c. (of_int (fst c), of_int (snd c))) cs"

text \<open>Taking the event at place \<open>i\<close> out of the queue.\<close>

definition remove_at :: "nat \<Rightarrow> 'a list \<Rightarrow> 'a list" where
  "remove_at i xs = take i xs @ drop (Suc i) xs"

text \<open>
  \<open>env.step()\<close> takes one event out of the queue and resumes the generator that
  waits for it; on an empty queue it raises EmptySchedule. simpy takes the event
  with the least time; the times are not modelled, and which queued event is taken
  is an input instead (the place \<open>k mod length (sched w)\<close>), so every order that
  simpy can produce is one of the orders of the model. The input also holds the
  three draws of a round of \<open>spread\<close>.

  A \<open>behavior\<close> generator that is resumed tests \<open>while not self.evacuated\<close>: it
  yields a new timeout, or returns. A \<open>spread\<close> generator tests \<open>while self.active\<close>
  when it starts and after each round. A \<open>spread\<close> generator that waits for its
  timeout is inside the loop: the fire was active at its last test, and no
  statement of the program makes a fire inactive.
\<close>

type_synonym step_input = "nat \<times> nat \<times> int \<times> int"

definition env_step :: "world \<Rightarrow> step_input \<Rightarrow> py_error + world" where
  "env_step w inp =
     (case inp of (k, rc, rx, ry) \<Rightarrow>
        if sched w = [] then Inl EmptySchedule
        else
          let i = k mod length (sched w);
              rest = remove_at i (sched w)
          in case sched w ! i of
               Behavior j \<Rightarrow>
                 Inr (w\<lparr>sched := rest @
                   [if j < length (people w) \<and> \<not> evacuated (people w ! j)
                    then Behavior j else Ended]\<rparr>)
             | Spread_init \<Rightarrow>
                 Inr (w\<lparr>sched := rest @ [if active (fire w) then Spread_timeout else Ended]\<rparr>)
             | Spread_timeout \<Rightarrow>
                 (case spread (fire w) rc rx ry of
                    Inl e \<Rightarrow> Inl e
                  | Inr f \<Rightarrow>
                      Inr (w\<lparr>fire := f,
                             sched := rest @ [if active f then Spread_timeout else Ended]\<rparr>))
             | Ended \<Rightarrow> Inr (w\<lparr>sched := rest\<rparr>))"

text \<open>One round of the main loop after the clicks: \<open>env.step()\<close>, then the people.\<close>

definition tick :: "world \<Rightarrow> step_input \<Rightarrow> py_error + world" where
  "tick w inp =
     (case env_step w inp of
        Inl e \<Rightarrow> Inl e
      | Inr w1 \<Rightarrow>
          (case update_all (people w1) (real_cells (cells (fire w1))) (alarm_on w1) of
             Inl e \<Rightarrow> Inl e
           | Inr ps \<Rightarrow> Inr (w1\<lparr>people := ps\<rparr>)))"

text \<open>What happens to the session: a click on one of the three buttons, or a tick.\<close>

datatype action =
  Alarm | Start_fire | Reset "nat \<Rightarrow> int \<times> int \<times> real" | Tick step_input

fun is_reset :: "action \<Rightarrow> bool" where
  "is_reset (Reset rnd) = True"
| "is_reset a = False"

fun act :: "world \<Rightarrow> action \<Rightarrow> py_error + world" where
  "act w Alarm = Inr (alarm w)"
| "act w Start_fire = Inr (start_fire w)"
| "act w (Reset rnd) = Inr (reset w rnd)"
| "act w (Tick inp) = tick w inp"

fun run :: "world \<Rightarrow> action list \<Rightarrow> py_error + world" where
  "run w [] = Inr w"
| "run w (a # as) = (case act w a of Inl e \<Rightarrow> Inl e | Inr w' \<Rightarrow> run w' as)"

text \<open>
  An invariant of the session, for the proofs: a fire that is active has a cell;
  every person who is not evacuated has a \<open>Behavior\<close> event in the queue; while the
  alarm is off nobody is evacuated; and there are people.
\<close>

definition session_ok :: "world \<Rightarrow> bool" where
  "session_ok w =
     ((active (fire w) \<longrightarrow> cells (fire w) \<noteq> [])
      \<and> (\<forall>j < length (people w). \<not> evacuated (people w ! j) \<longrightarrow> Behavior j \<in> set (sched w))
      \<and> (\<not> alarm_on w \<longrightarrow> (\<forall>j < length (people w). \<not> evacuated (people w ! j)))
      \<and> people w \<noteq> [])"

section \<open>Properties\<close>

subsection \<open>Distances\<close>

lemma hypot_0_0: "hypot 0 0 = 0" by (simp add: hypot_def)
lemma hypot_a_0: "hypot a 0 = \<bar>a\<bar>" by (simp add: hypot_def)
lemma hypot_0_b: "hypot 0 b = \<bar>b\<bar>" by (simp add: hypot_def)
lemma hypot_less_iff: "0 \<le> r \<Longrightarrow> hypot a b < r \<longleftrightarrow> a * a + b * b < r * r"
proof -
  assume r: "0 \<le> r"
  have "hypot a b < r \<longleftrightarrow> sqrt (a * a + b * b) < sqrt (r * r)" using r by (simp add: hypot_def)
  then show ?thesis by (simp only: real_sqrt_less_iff)
qed

lemma hypot_less_hypot: "hypot a b < hypot c d \<longleftrightarrow> a * a + b * b < c * c + d * d"
  by (simp add: hypot_def)

lemma dist_pt_pair: "dist_pt (a, b) (c, d) = hypot (a - c) (b - d)"
  by (simp add: dist_pt_def)

lemmas step_simps =
  Person_init_def BASE_SPEED_def uniform_def dist_pt_pair hypot_0_0 hypot_a_0 hypot_0_b
  hypot_less_iff next_pos_def py_div_def Let_def PANIC_MULT_def SMOKE_RADIUS_def WALLS_def
  Rect_def to_int_def colliderect_def

subsection \<open>The choice of the exit\<close>

lemma min_from_in: "min_from k b cs \<in> set (b # cs)"
  by (induction cs arbitrary: b) auto

lemma min_from_le_best: "k (min_from k b cs) \<le> k b"
proof (induction cs arbitrary: b)
  case Nil
  show ?case by simp
next
  case (Cons c cs)
  have "k (min_from k (if k c < k b then c else b) cs) \<le> k (if k c < k b then c else b)"
    by (rule Cons.IH)
  also have "\<dots> \<le> k b" by simp
  finally show ?case by simp
qed

lemma min_from_le: "e \<in> set (b # cs) \<Longrightarrow> k (min_from k b cs) \<le> k e"
proof (induction cs arbitrary: b)
  case Nil
  then show ?case by simp
next
  case (Cons c cs)
  let ?b = "if k c < k b then c else b"
  have best: "k (min_from k ?b cs) \<le> k ?b" by (rule min_from_le_best)
  show ?case
  proof (cases "e \<in> set cs")
    case True
    then have "k (min_from k ?b cs) \<le> k e" using Cons.IH[of ?b] by simp
    then show ?thesis by simp
  next
    case False
    with Cons.prems have "e = b \<or> e = c" by auto
    moreover have "k ?b \<le> k b" "k ?b \<le> k c" by auto
    ultimately have "k (min_from k ?b cs) \<le> k e" using best by auto
    then show ?thesis by simp
  qed
qed

lemma min_key_Inr:
  assumes "exits \<noteq> []"
  obtains e where "min_key k exits = Inr e" "e \<in> set exits" "\<And>e'. e' \<in> set exits \<Longrightarrow> k e \<le> k e'"
proof (cases exits)
  case Nil
  with assms show ?thesis by simp
next
  case (Cons c cs)
  show ?thesis
  proof (rule that[of "min_from k c cs"])
    show "min_key k exits = Inr (min_from k c cs)" by (simp add: min_key_def Cons)
    show "min_from k c cs \<in> set exits" using min_from_in[of k c cs] by (simp add: Cons)
    show "k (min_from k c cs) \<le> k e'" if "e' \<in> set exits" for e'
      using that min_from_le[of e' c cs k] by (simp add: Cons)
  qed
qed

text \<open>In the upper half of the arena the first exit is the nearest.\<close>

lemma nearest_exit_upper:
  assumes "b \<le> 325"
  shows "min_key (\<lambda>e. dist_pt (a, b) e) EXIT_POSITIONS = Inr (850, 120)"
proof -
  have "(b - 530) * (b - 530) - (b - 120) * (b - 120) = 410 * (650 - 2 * b)"
    by (simp add: algebra_simps)
  moreover have "0 \<le> 410 * (650 - 2 * b)" using assms by simp
  ultimately have "(b - 120) * (b - 120) \<le> (b - 530) * (b - 530)" by linarith
  then have "\<not> hypot (a - 850) (b - 530) < hypot (a - 850) (b - 120)"
    by (simp add: hypot_less_hypot)
  then show ?thesis by (simp add: min_key_def EXIT_POSITIONS_def dist_pt_def)
qed

subsection \<open>Panic\<close>

lemma smoke_panic_le: "pn \<le> 1 \<Longrightarrow> smoke_panic pos cs pn \<le> 1"
  by (induction cs arbitrary: pn) auto

lemma smoke_panic_ge: "pn \<le> 1 \<Longrightarrow> pn \<le> smoke_panic pos cs pn"
proof (induction cs arbitrary: pn)
  case Nil
  show ?case by simp
next
  case (Cons c cs)
  let ?q = "if dist_pt pos c < SMOKE_RADIUS then min 1 (pn + 25 / 1000) else pn"
  have "pn \<le> ?q" "?q \<le> 1" using Cons.prems by auto
  then have "pn \<le> smoke_panic pos cs ?q" using Cons.IH[of ?q] by linarith
  then show ?case by simp
qed

subsection \<open>One update\<close>

text \<open>The divisor of \<open>next_pos\<close> is never zero, so the divisions never fail.\<close>

lemma next_pos_Inr: "\<exists>n. next_pos p pn e = Inr n"
  by (simp add: next_pos_def py_div_def Let_def)

lemma update_in_idle: "\<not> al \<or> evacuated p \<Longrightarrow> update_in exits walls p cs al = Inr p"
  by (simp add: update_in_def)

text \<open>The three ways an update that does something can end.\<close>

lemma update_in_busy:
  assumes "al" "\<not> evacuated p" "min_key (\<lambda>e. dist_pt (pos_x p, pos_y p) e) exits = Inr e"
    and "next_pos p (smoke_panic (pos_x p, pos_y p) cs (panic p)) e = Inr n"
  shows "update_in exits walls p cs al =
     (let pn = smoke_panic (pos_x p, pos_y p) cs (panic p)
      in if hits_wall walls (Rect (fst n - 5) (snd n - 5) 10 10) then Inr (p\<lparr>panic := pn\<rparr>)
         else if dist_pt n e < 12
           then Inr (p\<lparr>pos_x := fst n, pos_y := snd n, panic := pn, evacuated := True\<rparr>)
           else Inr (p\<lparr>pos_x := fst n, pos_y := snd n, panic := pn\<rparr>))"
  using assms by (simp add: update_in_def Let_def)

lemma update_in_total:
  assumes "exits \<noteq> []"
  shows "\<exists>p'. update_in exits walls p cs al = Inr p'"
proof (cases "al \<and> \<not> evacuated p")
  case False
  then show ?thesis using update_in_idle[of al p] by auto
next
  case True
  obtain e where e: "min_key (\<lambda>e. dist_pt (pos_x p, pos_y p) e) exits = Inr e"
    using assms by (rule min_key_Inr)
  obtain n where n: "next_pos p (smoke_panic (pos_x p, pos_y p) cs (panic p)) e = Inr n"
    using next_pos_Inr by blast
  show ?thesis using True by (simp add: update_in_busy[OF _ _ e n] Let_def)
qed

lemma update_total: "\<exists>p'. update p cs al = Inr p'"
  unfolding update_def by (rule update_in_total) (simp add: EXIT_POSITIONS_def)

text \<open>An update that returns with the alarm on and the person not evacuated had an exit.\<close>

lemma update_in_exit:
  assumes "update_in exits walls p cs al = Inr p'" "al" "\<not> evacuated p"
  shows "\<exists>e. min_key (\<lambda>e. dist_pt (pos_x p, pos_y p) e) exits = Inr e"
proof (cases "min_key (\<lambda>e. dist_pt (pos_x p, pos_y p) e) exits")
  case (Inl err)
  then have "update_in exits walls p cs al = Inl err"
    using assms(2,3) by (simp add: update_in_def Let_def)
  with assms(1) show ?thesis by simp
next
  case (Inr e)
  then show ?thesis by blast
qed

lemma update_in_panic:
  assumes "update_in exits walls p cs al = Inr p'" "panic p \<le> 1"
  shows "panic p \<le> panic p' \<and> panic p' \<le> 1"
proof (cases "al \<and> \<not> evacuated p")
  case False
  then have "update_in exits walls p cs al = Inr p" by (auto simp: update_in_idle)
  with assms show ?thesis by simp
next
  case True
  obtain e where e: "min_key (\<lambda>e. dist_pt (pos_x p, pos_y p) e) exits = Inr e"
    using update_in_exit[OF assms(1)] True by blast
  obtain n where n: "next_pos p (smoke_panic (pos_x p, pos_y p) cs (panic p)) e = Inr n"
    using next_pos_Inr by blast
  have "panic p' = smoke_panic (pos_x p, pos_y p) cs (panic p)"
    using assms(1) True by (auto simp: update_in_busy[OF _ _ e n] Let_def split: if_splits)
  then show ?thesis using assms(2) by (simp add: smoke_panic_le smoke_panic_ge)
qed

lemma update_panic:
  assumes "panic p \<le> 1"
  shows "\<exists>p'. update p cs al = Inr p' \<and> panic p \<le> panic p' \<and> panic p' \<le> 1"
proof -
  obtain p' where "update p cs al = Inr p'" using update_total by blast
  then show ?thesis using update_in_panic[of EXIT_POSITIONS WALLS p cs al p'] assms
    by (simp add: update_def)
qed

lemma update_trace_panic:
  assumes "panic p \<le> 1"
  shows "\<exists>ps. update_trace p ins = Inr ps \<and> length ps = Suc (length ins) \<and> hd ps = p
           \<and> (\<forall>q\<in>set ps. panic p \<le> panic q \<and> panic q \<le> 1) \<and> sorted (map panic ps)"
  using assms
proof (induction ins arbitrary: p)
  case Nil
  then show ?case by simp
next
  case (Cons i ins)
  obtain cs al where i: "i = (cs, al)" by (cases i)
  obtain p' where p': "update p cs al = Inr p'" "panic p \<le> panic p'" "panic p' \<le> 1"
    using update_panic[OF Cons.prems] by blast
  obtain ps where ps: "update_trace p' ins = Inr ps" "length ps = Suc (length ins)" "hd ps = p'"
      "\<forall>q\<in>set ps. panic p' \<le> panic q \<and> panic q \<le> 1" "sorted (map panic ps)"
    using Cons.IH[OF p'(3)] by blast
  have "update_trace p (i # ins) = Inr (p # ps)" using i p'(1) ps(1) by simp
  moreover have "\<forall>q\<in>set (p # ps). panic p \<le> panic q \<and> panic q \<le> 1"
    using ps(4) p'(2) Cons.prems by fastforce
  moreover have "sorted (map panic (p # ps))" using ps(4,5) p'(2) by fastforce
  ultimately show ?case using ps(2) by simp
qed


subsection \<open>The fire and the main loop\<close>

lemma randint_range: "lo \<le> hi \<Longrightarrow> lo \<le> randint lo hi r \<and> randint lo hi r \<le> hi"
proof -
  assume "lo \<le> hi"
  then have pos: "0 < hi - lo + 1" by simp
  have "0 \<le> r mod (hi - lo + 1)" using pos by (rule pos_mod_sign)
  moreover have "r mod (hi - lo + 1) < hi - lo + 1" using pos by (rule pos_mod_bound)
  ultimately show ?thesis unfolding randint_def by linarith
qed

lemma update_all_off: "update_all ps cs False = Inr ps"
  by (induction ps) (simp_all add: update_def update_in_idle)

lemma update_keeps_evacuated:
  assumes "update p cs al = Inr p'" "evacuated p"
  shows "evacuated p'"
proof -
  have "update p cs al = Inr p" using assms(2) by (simp add: update_def update_in_idle)
  with assms show ?thesis by simp
qed

lemma update_all_total:
  "\<exists>ps'. update_all ps cs al = Inr ps'
      \<and> list_all2 (\<lambda>p p'. evacuated p \<longrightarrow> evacuated p') ps ps'"
proof (induction ps)
  case Nil
  show ?case by simp
next
  case (Cons p ps)
  obtain p' where p': "update p cs al = Inr p'" using update_total by blast
  obtain ps' where ps': "update_all ps cs al = Inr ps'"
      "list_all2 (\<lambda>p p'. evacuated p \<longrightarrow> evacuated p') ps ps'"
    using Cons.IH by blast
  have "evacuated p \<longrightarrow> evacuated p'" using update_keeps_evacuated[OF p'] by blast
  then show ?case using p' ps' by simp
qed

lemma spread_ok:
  assumes "active f \<longrightarrow> cells f \<noteq> []"
  shows "\<exists>f'. spread f rc rx ry = Inr f' \<and> active f' = active f
           \<and> spread_procs f' = spread_procs f
           \<and> (\<exists>ys. cells f' = cells f @ ys) \<and> (active f' \<longrightarrow> cells f' \<noteq> [])"
proof (cases "active f")
  case False
  then show ?thesis by (simp add: spread_def)
next
  case True
  with assms have ne: "cells f \<noteq> []" by simp
  obtain a b where "cells f ! (rc mod length (cells f)) = (a, b)" by (cases "cells f ! (rc mod length (cells f))")
  then show ?thesis using True ne by (simp add: spread_def choice_def Let_def)
qed

lemma remove_at_keeps:
  assumes "x \<in> set xs" "i < length xs" "xs ! i \<noteq> x"
  shows "x \<in> set (remove_at i xs)"
proof -
  have "take i xs @ xs ! i # drop (Suc i) xs = xs"
    using assms(2) by (rule id_take_nth_drop[symmetric])
  then have "set (take i xs @ xs ! i # drop (Suc i) xs) = set xs" by (rule arg_cong)
  then have "set xs = set (take i xs) \<union> {xs ! i} \<union> set (drop (Suc i) xs)" by auto
  with assms(1,3) show ?thesis by (auto simp: remove_at_def)
qed

lemma env_step_empty: "sched w = [] \<Longrightarrow> env_step w inp = Inl EmptySchedule"
  by (cases inp) (simp add: env_step_def)

lemma env_step_ok:
  assumes fire: "active (fire w) \<longrightarrow> cells (fire w) \<noteq> []" and ne: "sched w \<noteq> []"
  shows "\<exists>w'. env_step w inp = Inr w' \<and> people w' = people w \<and> alarm_on w' = alarm_on w
           \<and> active (fire w') = active (fire w)
           \<and> (\<exists>ys. cells (fire w') = cells (fire w) @ ys)
           \<and> (active (fire w') \<longrightarrow> cells (fire w') \<noteq> [])
           \<and> (\<forall>j. j < length (people w) \<and> \<not> evacuated (people w ! j)
                  \<and> Behavior j \<in> set (sched w) \<longrightarrow> Behavior j \<in> set (sched w'))"
proof -
  obtain k rc rx ry where inp: "inp = (k, rc, rx, ry)" by (cases inp)
  let ?i = "k mod length (sched w)"
  let ?rest = "remove_at ?i (sched w)"
  have i: "?i < length (sched w)" using ne by simp
  have keep: "Behavior j \<in> set (?rest @ [ev])"
    if "Behavior j \<in> set (sched w)" "sched w ! ?i \<noteq> Behavior j" for j ev
    using remove_at_keeps[OF that(1) i that(2)] by simp
  show ?thesis
  proof (cases "sched w ! ?i")
    case (Behavior m)
    let ?ev = "if m < length (people w) \<and> \<not> evacuated (people w ! m) then Behavior m else Ended"
    have step: "env_step w inp = Inr (w\<lparr>sched := ?rest @ [?ev]\<rparr>)"
      using ne Behavior by (simp add: env_step_def inp Let_def)
    have "Behavior j \<in> set (?rest @ [?ev])"
      if "j < length (people w)" "\<not> evacuated (people w ! j)" "Behavior j \<in> set (sched w)" for j
    proof (cases "j = m")
      case True
      with that show ?thesis by simp
    next
      case False
      then have "sched w ! ?i \<noteq> Behavior j" using Behavior by simp
      then show ?thesis using keep that(3) by blast
    qed
    then show ?thesis using step fire by simp
  next
    case Spread_init
    let ?ev = "if active (fire w) then Spread_timeout else Ended"
    have step: "env_step w inp = Inr (w\<lparr>sched := ?rest @ [?ev]\<rparr>)"
      using ne Spread_init by (simp add: env_step_def inp Let_def)
    have "Behavior j \<in> set (?rest @ [?ev])" if "Behavior j \<in> set (sched w)" for j
      using keep[OF that] Spread_init by simp
    then show ?thesis using step fire by simp
  next
    case Spread_timeout
    obtain f' where f': "spread (fire w) rc rx ry = Inr f'" "active f' = active (fire w)"
        "\<exists>ys. cells f' = cells (fire w) @ ys" "active f' \<longrightarrow> cells f' \<noteq> []"
      using spread_ok[OF fire, of rc rx ry] by blast
    let ?ev = "if active f' then Spread_timeout else Ended"
    have step: "env_step w inp = Inr (w\<lparr>fire := f', sched := ?rest @ [?ev]\<rparr>)"
      using ne Spread_timeout f'(1) by (simp add: env_step_def inp Let_def)
    have "Behavior j \<in> set (?rest @ [?ev])" if "Behavior j \<in> set (sched w)" for j
      using keep[OF that] Spread_timeout by simp
    then show ?thesis using step f' by simp
  next
    case Ended
    have step: "env_step w inp = Inr (w\<lparr>sched := ?rest\<rparr>)"
      using ne Ended by (simp add: env_step_def inp Let_def)
    have "Behavior j \<in> set ?rest" if "Behavior j \<in> set (sched w)" for j
      using remove_at_keeps[OF that i] Ended by simp
    then show ?thesis using step fire by simp
  qed
qed

lemma tick_empty: "sched w = [] \<Longrightarrow> tick w inp = Inl EmptySchedule"
  by (simp add: tick_def env_step_empty)

lemma tick_ok:
  assumes fire: "active (fire w) \<longrightarrow> cells (fire w) \<noteq> []" and ne: "sched w \<noteq> []"
  shows "\<exists>w'. tick w inp = Inr w' \<and> alarm_on w' = alarm_on w
           \<and> (\<not> alarm_on w \<longrightarrow> people w' = people w)
           \<and> list_all2 (\<lambda>p p'. evacuated p \<longrightarrow> evacuated p') (people w) (people w')
           \<and> active (fire w') = active (fire w)
           \<and> (\<exists>ys. cells (fire w') = cells (fire w) @ ys)
           \<and> (active (fire w') \<longrightarrow> cells (fire w') \<noteq> [])
           \<and> (\<forall>j. j < length (people w) \<and> \<not> evacuated (people w ! j)
                  \<and> Behavior j \<in> set (sched w) \<longrightarrow> Behavior j \<in> set (sched w'))"
proof -
  obtain w1 where w1: "env_step w inp = Inr w1" "people w1 = people w" "alarm_on w1 = alarm_on w"
      "active (fire w1) = active (fire w)" "\<exists>ys. cells (fire w1) = cells (fire w) @ ys"
      "active (fire w1) \<longrightarrow> cells (fire w1) \<noteq> []"
      "\<forall>j. j < length (people w) \<and> \<not> evacuated (people w ! j)
                  \<and> Behavior j \<in> set (sched w) \<longrightarrow> Behavior j \<in> set (sched w1)"
    using env_step_ok[OF fire ne, of inp] by blast
  obtain ps where ps: "update_all (people w1) (real_cells (cells (fire w1))) (alarm_on w1) = Inr ps"
      "list_all2 (\<lambda>p p'. evacuated p \<longrightarrow> evacuated p') (people w1) ps"
    using update_all_total by blast
  have off: "\<not> alarm_on w \<longrightarrow> ps = people w"
    using ps(1) w1(2,3) by (auto simp: update_all_off)
  let ?w' = "w1\<lparr>people := ps\<rparr>"
  have t: "tick w inp = Inr ?w'" using w1(1) ps(1) by (simp add: tick_def)
  have a: "alarm_on ?w' = alarm_on w" using w1(3) by simp
  have b: "\<not> alarm_on w \<longrightarrow> people ?w' = people w" using off by simp
  have c: "list_all2 (\<lambda>p p'. evacuated p \<longrightarrow> evacuated p') (people w) (people ?w')"
    using ps(2) w1(2) by simp
  have d: "active (fire ?w') = active (fire w)" using w1(4) by simp
  have e: "\<exists>ys. cells (fire ?w') = cells (fire w) @ ys" using w1(5) by simp
  have f: "active (fire ?w') \<longrightarrow> cells (fire ?w') \<noteq> []" using w1(6) by simp
  have g: "\<forall>j. j < length (people w) \<and> \<not> evacuated (people w ! j)
                  \<and> Behavior j \<in> set (sched w) \<longrightarrow> Behavior j \<in> set (sched ?w')"
    using w1(7) by simp
  show ?thesis using t a b c d e f g by blast
qed

lemma init_world_ok: "session_ok (init_world rnd)"
  by (simp add: session_ok_def init_world_def new_people_def Fire_init_def Person_init_def
      NUM_PEOPLE_def split: prod.splits)

lemma act_ok:
  assumes ok: "session_ok w"
  shows "(act w a = Inl EmptySchedule \<and> sched w = [])
         \<or> (\<exists>w'. act w a = Inr w' \<and> session_ok w'
               \<and> (\<not> is_reset a \<longrightarrow>
                    (\<exists>ys. cells (fire w') = cells (fire w) @ ys)
                    \<and> (active (fire w) \<longrightarrow> active (fire w'))))"
proof (cases a)
  case Alarm
  then show ?thesis using ok by (simp add: alarm_def session_ok_def)
next
  case Start_fire
  then show ?thesis using ok by (simp add: start_fire_def ignite_def session_ok_def)
next
  case (Reset rnd)
  then show ?thesis using init_world_ok by (simp add: reset_def)
next
  case (Tick inp)
  show ?thesis
  proof (cases "sched w = []")
    case True
    then show ?thesis using Tick by (simp add: tick_empty)
  next
    case False
    have fire: "active (fire w) \<longrightarrow> cells (fire w) \<noteq> []" using ok by (simp add: session_ok_def)
    obtain w' where w': "tick w inp = Inr w'" "alarm_on w' = alarm_on w"
        "\<not> alarm_on w \<longrightarrow> people w' = people w"
        "list_all2 (\<lambda>p p'. evacuated p \<longrightarrow> evacuated p') (people w) (people w')"
        "active (fire w') = active (fire w)"
        "\<exists>ys. cells (fire w') = cells (fire w) @ ys"
        "active (fire w') \<longrightarrow> cells (fire w') \<noteq> []"
        "\<forall>j. j < length (people w) \<and> \<not> evacuated (people w ! j)
                  \<and> Behavior j \<in> set (sched w) \<longrightarrow> Behavior j \<in> set (sched w')"
      using tick_ok[OF fire False, of inp] by blast
    have len: "length (people w') = length (people w)"
      using w'(4) by (simp add: list_all2_lengthD)
    have mono: "\<not> evacuated (people w ! j)" if "j < length (people w)" "\<not> evacuated (people w' ! j)" for j
      using list_all2_nthD[OF w'(4) that(1)] that(2) by blast
    have q: "Behavior j \<in> set (sched w')" if "j < length (people w')" "\<not> evacuated (people w' ! j)" for j
    proof -
      have j: "j < length (people w)" using that(1) len by simp
      have ne: "\<not> evacuated (people w ! j)" using mono[OF j that(2)] .
      then have "Behavior j \<in> set (sched w)" using ok j by (simp add: session_ok_def)
      then show ?thesis using w'(8) j ne by blast
    qed
    have off: "\<not> evacuated (people w' ! j)" if "\<not> alarm_on w'" "j < length (people w')" for j
    proof -
      have "\<not> alarm_on w" using that(1) w'(2) by simp
      moreover from this have "people w' = people w" using w'(3) by simp
      ultimately show ?thesis using ok that(2) by (simp add: session_ok_def)
    qed
    have ne: "people w' \<noteq> []" using ok len by (auto simp: session_ok_def)
    have "session_ok w'" using w'(7) q off ne by (simp add: session_ok_def)
    then show ?thesis using Tick w'(1,5,6) by simp
  qed
qed

lemma run_ok:
  assumes "session_ok w" "run w acts = Inr w'"
  shows "session_ok w'"
  using assms
proof (induction acts arbitrary: w)
  case Nil
  then show ?case by simp
next
  case (Cons a acts)
  from Cons.prems(2) obtain w1 where w1: "act w a = Inr w1" "run w1 acts = Inr w'"
    by (cases "act w a") simp_all
  have "session_ok w1" using act_ok[OF Cons.prems(1), of a] w1(1) by auto
  then show ?case using Cons.IH w1(2) by blast
qed

text \<open>A run fails only by EmptySchedule.\<close>

lemma run_fails:
  assumes "session_ok w" "run w acts = Inl e"
  shows "e = EmptySchedule"
  using assms
proof (induction acts arbitrary: w)
  case Nil
  then show ?case by simp
next
  case (Cons a acts)
  show ?case
  proof (cases "act w a")
    case (Inl e')
    then have "e' = EmptySchedule" using act_ok[OF Cons.prems(1), of a] by auto
    then show ?thesis using Cons.prems(2) Inl by simp
  next
    case (Inr w1)
    then have "session_ok w1" using act_ok[OF Cons.prems(1), of a] by auto
    then show ?thesis using Cons.IH Cons.prems(2) Inr by simp
  qed
qed

text \<open>
  In every session that a run from a fresh session reaches with the alarm off, the
  fire, if active, has a cell, and the first person is not evacuated and has a
  \<open>Behavior\<close> event in the queue.
\<close>

lemma reachable_alarm_off:
  assumes "run (init_world rnd) acts = Inr w" "\<not> alarm_on w"
  shows "(active (fire w) \<longrightarrow> cells (fire w) \<noteq> []) \<and> 0 < length (people w)
         \<and> \<not> evacuated (people w ! 0) \<and> Behavior 0 \<in> set (sched w)"
proof -
  have "session_ok w" using run_ok[OF init_world_ok assms(1)] .
  then show ?thesis using assms(2) by (simp add: session_ok_def)
qed

text \<open>
  The queue does run empty: one person on an exit, the alarm on, no fire. The first
  tick evacuates the person, the second ends the generator, the third takes its
  last event, and the fourth \<open>env.step()\<close> raises EmptySchedule.
\<close>

lemma schedule_runs_empty:
  "run \<lparr>people = [Person_init 850 120 (3 / 11)], fire = Fire_init, alarm_on = True,
        sched = [Behavior 0]\<rparr>
     (map Tick [(0, 0, 0, 0), (0, 0, 0, 0), (0, 0, 0, 0)])
   = Inr \<lparr>people = [\<lparr>pos_x = 850, pos_y = 120, speed = 1, panic = 0, evacuated = True\<rparr>],
          fire = Fire_init, alarm_on = True, sched = []\<rparr> \<and>
   run \<lparr>people = [Person_init 850 120 (3 / 11)], fire = Fire_init, alarm_on = True,
        sched = [Behavior 0]\<rparr>
     (map Tick [(0, 0, 0, 0), (0, 0, 0, 0), (0, 0, 0, 0), (0, 0, 0, 0)])
   = Inl EmptySchedule"
  by (simp add: tick_def env_step_def remove_at_def Fire_init_def real_cells_def
      update_def update_in_def nearest_exit_upper step_simps)

subsection \<open>Rectangles and boxes\<close>

lemma hits_wall_iff: "hits_wall ws r \<longleftrightarrow> (\<exists>w \<in> set ws. colliderect w r)"
  by (induction ws) auto

lemma to_int_of_int: "to_int (of_int k) = k"
  by (simp add: to_int_def)

text \<open>
  For a wall of positive width and height, and a box whose corner has whole-number
  coordinates, the rectangle that \<open>update\<close> builds is the centred box itself, and
  \<open>colliderect\<close> decides whether the box intersects the wall.
\<close>

lemma box_intersects_iff:
  assumes "0 < rect_w w" "0 < rect_h w"
  shows "centred_box_intersects (of_int kx + 5, of_int ky + 5) w
         \<longleftrightarrow> colliderect w \<lparr>rect_x = kx, rect_y = ky, rect_w = 10, rect_h = 10\<rparr>"
proof -
  have x1: "(of_int kx :: real) < of_int (rect_x w + rect_w w) \<longleftrightarrow> kx < rect_x w + rect_w w"
    by (rule of_int_less_iff)
  have x2: "(of_int (rect_x w) :: real) < of_int kx + 5 + 5 \<longleftrightarrow> rect_x w < kx + 10"
  proof -
    have "(of_int kx :: real) + 5 + 5 = of_int (kx + 10)" by simp
    then show ?thesis by (simp only: of_int_less_iff)
  qed
  have y1: "(of_int ky :: real) < of_int (rect_y w + rect_h w) \<longleftrightarrow> ky < rect_y w + rect_h w"
    by (rule of_int_less_iff)
  have y2: "(of_int (rect_y w) :: real) < of_int ky + 5 + 5 \<longleftrightarrow> rect_y w < ky + 10"
  proof -
    have "(of_int ky :: real) + 5 + 5 = of_int (ky + 10)" by simp
    then show ?thesis by (simp only: of_int_less_iff)
  qed
  have "centred_box_intersects (of_int kx + 5, of_int ky + 5) w
        \<longleftrightarrow> kx < rect_x w + rect_w w \<and> rect_x w < kx + 10
            \<and> ky < rect_y w + rect_h w \<and> rect_y w < ky + 10"
    unfolding centred_box_intersects_def fst_conv snd_conv add_diff_cancel
    using x1 x2 y1 y2 by blast
  also have "\<dots> \<longleftrightarrow> colliderect w \<lparr>rect_x = kx, rect_y = ky, rect_w = 10, rect_h = 10\<rparr>"
    using assms by (auto simp: colliderect_def)
  finally show ?thesis .
qed

lemma walls_positive: "w \<in> set WALLS \<Longrightarrow> 0 < rect_w w \<and> 0 < rect_h w"
  by (auto simp: WALLS_def Rect_def to_int_def)

subsection \<open>Claims\<close>

text \<open>
  C4: once a person is evacuated, every later call of update, whatever its
  arguments, returns the person as it is: evacuated stays true and neither the
  position nor the panic (nor the speed) changes.
\<close>

theorem evacuated_updates_noop:
  "evacuated p \<Longrightarrow> updates p ins = Inr p"
proof (induction ins)
  case Nil
  show ?case by simp
next
  case (Cons i ins)
  obtain cs al where i: "i = (cs, al)" by (cases i)
  have "update p cs al = Inr p"
    using Cons.prems by (simp add: update_def update_in_idle)
  with Cons i show ?case by simp
qed

theorem evacuated_updates_noop_witness:
  "evacuated ((Person_init 850 120 0)\<lparr>evacuated := True\<rparr>) \<and>
   updates ((Person_init 850 120 0)\<lparr>evacuated := True\<rparr>)
     [([(850, 120)], True), ([], False), ([(450, 300), (840, 100)], True)]
   = Inr ((Person_init 850 120 0)\<lparr>evacuated := True\<rparr>)"
  using evacuated_updates_noop
    [of "(Person_init 850 120 0)\<lparr>evacuated := True\<rparr>"
        "[([(850, 120)], True), ([], False), ([(450, 300), (840, 100)], True)]"]
  by simp

text \<open>
  C3: from its construction on, through any sequence of update calls with any fire
  cells and alarm flags, a person's panic starts at 0, never decreases from one call
  to the next and stays within [0, 1]. The trace lists the person before the first
  call and after each call; no call fails.
\<close>

theorem panic_monotone_bounded:
  "\<exists>ps. update_trace (Person_init a b t) ins = Inr ps \<and> length ps = Suc (length ins)
      \<and> hd ps = Person_init a b t \<and> panic (hd ps) = 0
      \<and> (\<forall>q\<in>set ps. 0 \<le> panic q \<and> panic q \<le> 1) \<and> sorted (map panic ps)"
proof -
  have "panic (Person_init a b t) = 0" by (simp add: Person_init_def)
  then show ?thesis using update_trace_panic[of "Person_init a b t" ins] by auto
qed



theorem panic_monotone_bounded_witness:
  "update_trace (Person_init 830 120 (3 / 11))
     [([(800, 120), (840, 150)], True), ([(800, 120)], True), ([(800, 120)], False)]
   = Inr [\<lparr>pos_x = 830, pos_y = 120, speed = 1, panic = 0, evacuated = False\<rparr>,
          \<lparr>pos_x = 83109 / 100, pos_y = 120, speed = 1, panic = 1 / 20, evacuated = False\<rparr>,
          \<lparr>pos_x = 33289 / 40, pos_y = 120, speed = 1, panic = 3 / 40, evacuated = False\<rparr>,
          \<lparr>pos_x = 33289 / 40, pos_y = 120, speed = 1, panic = 3 / 40, evacuated = False\<rparr>]"
  using panic_monotone_bounded
    [of 830 120 "3 / 11"
        "[([(800, 120), (840, 150)], True), ([(800, 120)], True), ([(800, 120)], False)]"]
  by (simp add: update_def update_in_def nearest_exit_upper step_simps)

text \<open>
  C7: whenever an update turns evacuated from false to true, the person's new
  position is less than 12 units from the exit nearest to it. This holds for any
  list of exits and walls, so also for those of the module.
\<close>

theorem evacuated_only_near_exit:
  assumes "\<not> evacuated p" "update_in exits walls p cs al = Inr p'" "evacuated p'"
  shows "\<exists>e. min_key (\<lambda>e. dist_pt (pos_x p', pos_y p') e) exits = Inr e
           \<and> dist_pt (pos_x p', pos_y p') e < 12"
proof -
  have al: "al"
  proof (rule ccontr)
    assume "\<not> al"
    then have "update_in exits walls p cs al = Inr p" by (simp add: update_in_idle)
    with assms show False by simp
  qed
  obtain t where t: "min_key (\<lambda>e. dist_pt (pos_x p, pos_y p) e) exits = Inr t"
    using update_in_exit[OF assms(2) al assms(1)] by blast
  obtain n where n: "next_pos p (smoke_panic (pos_x p, pos_y p) cs (panic p)) t = Inr n"
    using next_pos_Inr by blast
  from t have ne: "exits \<noteq> []" by (auto simp: min_key_def)
  have tin: "t \<in> set exits"
    using t min_from_in[of "\<lambda>e. dist_pt (pos_x p, pos_y p) e"]
    by (cases exits) (auto simp: min_key_def)
  have near: "dist_pt (pos_x p', pos_y p') t < 12"
    using assms al by (auto simp: update_in_busy[OF _ _ t n] Let_def split: if_splits)
  obtain e where e: "min_key (\<lambda>e. dist_pt (pos_x p', pos_y p') e) exits = Inr e"
      "\<And>e'. e' \<in> set exits \<Longrightarrow> dist_pt (pos_x p', pos_y p') e \<le> dist_pt (pos_x p', pos_y p') e'"
    using min_key_Inr[OF ne, of "\<lambda>e. dist_pt (pos_x p', pos_y p') e"] by blast
  have "dist_pt (pos_x p', pos_y p') e \<le> dist_pt (pos_x p', pos_y p') t" using e(2) tin by blast
  with near e(1) show ?thesis by auto
qed


theorem evacuated_only_near_exit_witness:
  "\<not> evacuated (Person_init 840 120 (3 / 11)) \<and>
   update_in EXIT_POSITIONS WALLS (Person_init 840 120 (3 / 11)) [] True
     = Inr \<lparr>pos_x = 841, pos_y = 120, speed = 1, panic = 0, evacuated = True\<rparr> \<and>
   min_key (\<lambda>e. dist_pt (841, 120) e) EXIT_POSITIONS = Inr (850, 120) \<and>
   dist_pt (841, 120) (850, 120) < 12"
proof -
  let ?p = "Person_init 840 120 (3 / 11)"
  let ?p' = "\<lparr>pos_x = 841, pos_y = 120, speed = 1, panic = 0, evacuated = True\<rparr>"
  have before: "\<not> evacuated ?p" by (simp add: Person_init_def)
  have step: "update_in EXIT_POSITIONS WALLS ?p [] True = Inr ?p'"
    by (simp add: update_in_def nearest_exit_upper step_simps)
  have after: "evacuated ?p'" by simp
  have near: "min_key (\<lambda>e. dist_pt (841, 120) e) EXIT_POSITIONS = Inr (850, 120)"
    by (rule nearest_exit_upper) simp
  have "\<exists>e. min_key (\<lambda>e. dist_pt (pos_x ?p', pos_y ?p') e) EXIT_POSITIONS = Inr e
          \<and> dist_pt (pos_x ?p', pos_y ?p') e < 12"
    by (rule evacuated_only_near_exit[OF before step after])
  then have "dist_pt (841, 120) (850, 120) < 12" using near by simp
  with before step near show ?thesis by simp
qed


text \<open>
  C6: a person who is not evacuated and stands exactly on the only exit, with the
  alarm on, no fire cells, and no wall colliding with the rectangle of the candidate
  position, is marked evacuated by the first update and nothing else changes. The
  distance to the exit is 0, so the divisor is 1: neither division raises
  ZeroDivisionError, and the candidate position is the exit itself.
\<close>

theorem at_exit_evacuates:
  assumes "\<not> evacuated p" "pos_x p = a" "pos_y p = b"
    and "\<not> hits_wall walls (Rect (a - 5) (b - 5) 10 10)"
  shows "update_in [(a, b)] walls p [] True = Inr (p\<lparr>evacuated := True\<rparr>)
         \<and> next_pos p (panic p) (a, b) = Inr (a, b)"
proof -
  have e: "min_key (\<lambda>e. dist_pt (pos_x p, pos_y p) e) [(a, b)] = Inr (a, b)"
    by (simp add: min_key_def)
  have n: "next_pos p (panic p) (a, b) = Inr (a, b)"
    using assms(2,3) by (simp add: next_pos_def py_div_def hypot_0_0)
  then have n': "next_pos p (smoke_panic (pos_x p, pos_y p) [] (panic p)) (a, b) = Inr (a, b)"
    by simp
  have "update_in [(a, b)] walls p [] True
      = Inr (p\<lparr>pos_x := a, pos_y := b, panic := panic p, evacuated := True\<rparr>)"
    using assms(1,4) by (simp add: update_in_busy[OF _ _ e n'] dist_pt_def hypot_0_0)
  moreover have "p\<lparr>pos_x := a, pos_y := b, panic := panic p\<rparr> = p"
    using assms(2,3) by simp
  ultimately show ?thesis using n by simp
qed

theorem at_exit_evacuates_witness:
  "\<not> evacuated (Person_init 850 120 (3 / 11)) \<and>
   \<not> hits_wall WALLS (Rect (850 - 5) (120 - 5) 10 10) \<and>
   next_pos (Person_init 850 120 (3 / 11)) 0 (850, 120) = Inr (850, 120) \<and>
   update_in [(850, 120)] WALLS (Person_init 850 120 (3 / 11)) [] True
     = Inr \<lparr>pos_x = 850, pos_y = 120, speed = 1, panic = 0, evacuated = True\<rparr>"
  using at_exit_evacuates[of "Person_init 850 120 (3 / 11)" 850 120 WALLS]
  by (simp add: step_simps)

text \<open>
  C10: with the alarm on and the person not evacuated, the candidate position is
  computed without error, and if its rectangle collides with a wall, update returns
  the person with only the panic changed, to the value reached in the loop over the
  fire cells: position, speed and evacuated flag are as before, also when the person
  is already within 12 units of the exit, as in the witness.
\<close>

theorem blocked_keeps_place:
  assumes "al" "\<not> evacuated p"
    and "min_key (\<lambda>e. dist_pt (pos_x p, pos_y p) e) exits = Inr e"
    and "pn = smoke_panic (pos_x p, pos_y p) cs (panic p)"
  shows "\<exists>n. next_pos p pn e = Inr n
           \<and> (hits_wall walls (Rect (fst n - 5) (snd n - 5) 10 10)
                \<longrightarrow> update_in exits walls p cs al = Inr (p\<lparr>panic := pn\<rparr>))"
proof -
  obtain n where n: "next_pos p (smoke_panic (pos_x p, pos_y p) cs (panic p)) e = Inr n"
    using next_pos_Inr by blast
  have "update_in exits walls p cs al =
     (let pn = smoke_panic (pos_x p, pos_y p) cs (panic p)
      in if hits_wall walls (Rect (fst n - 5) (snd n - 5) 10 10) then Inr (p\<lparr>panic := pn\<rparr>)
         else if dist_pt n e < 12
           then Inr (p\<lparr>pos_x := fst n, pos_y := snd n, panic := pn, evacuated := True\<rparr>)
           else Inr (p\<lparr>pos_x := fst n, pos_y := snd n, panic := pn\<rparr>))"
    by (rule update_in_busy[OF assms(1-3) n])
  then have "hits_wall walls (Rect (fst n - 5) (snd n - 5) 10 10)
      \<longrightarrow> update_in exits walls p cs al = Inr (p\<lparr>panic := pn\<rparr>)"
    using assms(4) by (simp add: Let_def)
  with n assms(4) show ?thesis by blast
qed

theorem blocked_keeps_place_witness:
  "min_key (\<lambda>e. dist_pt (5, 0) e) [(0, 0)] = Inr (0, 0) \<and>
   dist_pt (5, 0) (0, 0) < 12 \<and>
   smoke_panic (5, 0) [(5, 0)] 0 = 1 / 40 \<and>
   next_pos (Person_init 5 0 (3 / 11)) (1 / 40) (0, 0) = Inr (791 / 200, 0) \<and>
   hits_wall [Rect (- 2) (- 2) 4 4] (Rect (791 / 200 - 5) (0 - 5) 10 10) \<and>
   update_in [(0, 0)] [Rect (- 2) (- 2) 4 4] (Person_init 5 0 (3 / 11)) [(5, 0)] True
     = Inr \<lparr>pos_x = 5, pos_y = 0, speed = 1, panic = 1 / 40, evacuated = False\<rparr>"
proof -
  let ?p = "Person_init 5 0 (3 / 11)"
  let ?walls = "[Rect (- 2) (- 2) 4 4]"
  have al: "True" by simp
  have ne: "\<not> evacuated ?p" by (simp add: Person_init_def)
  have ex: "min_key (\<lambda>e. dist_pt (pos_x ?p, pos_y ?p) e) [(0, 0)] = Inr (0, 0)"
    by (simp add: min_key_def)
  have pn: "1 / 40 = smoke_panic (pos_x ?p, pos_y ?p) [(5, 0)] (panic ?p)"
    by (simp add: step_simps)
  have n: "next_pos ?p (1 / 40) (0, 0) = Inr (791 / 200, 0)"
    by (simp add: step_simps)
  have hit: "hits_wall ?walls (Rect (791 / 200 - 5) (0 - 5) 10 10)"
    by (simp add: step_simps)
  have "\<exists>n. next_pos ?p (1 / 40) (0, 0) = Inr n
           \<and> (hits_wall ?walls (Rect (fst n - 5) (snd n - 5) 10 10)
                \<longrightarrow> update_in [(0, 0)] ?walls ?p [(5, 0)] True = Inr (?p\<lparr>panic := 1 / 40\<rparr>))"
    by (rule blocked_keeps_place[OF al ne ex pn])
  then obtain m where m: "next_pos ?p (1 / 40) (0, 0) = Inr m"
    and imp: "hits_wall ?walls (Rect (fst m - 5) (snd m - 5) 10 10)
                \<longrightarrow> update_in [(0, 0)] ?walls ?p [(5, 0)] True = Inr (?p\<lparr>panic := 1 / 40\<rparr>)"
    by blast
  from m n have "m = (791 / 200, 0)" by simp
  with imp hit
  have "update_in [(0, 0)] ?walls ?p [(5, 0)] True = Inr (?p\<lparr>panic := 1 / 40\<rparr>)"
    by simp
  moreover have "dist_pt (5, 0) (0, 0) < (12 :: real)" by (simp add: step_simps)
  moreover have "smoke_panic (5, 0) [(5, 0)] 0 = 1 / 40" by (simp add: step_simps)
  moreover have "min_key (\<lambda>e. dist_pt (5, 0) e) [(0 :: real, 0 :: real)] = Inr (0, 0)"
    by (simp add: min_key_def)
  moreover have "?p\<lparr>panic := 1 / 40\<rparr>
      = \<lparr>pos_x = 5, pos_y = 0, speed = 1, panic = 1 / 40, evacuated = False\<rparr>"
    by (simp add: step_simps)
  ultimately show ?thesis using n hit by simp
qed

text \<open>
  C2, as the code has it: start_fire on a session whose fire is active changes
  nothing, so clicking it twice gives the same session as clicking it once. The guard
  is in start_fire; ignite itself has none.
\<close>

theorem start_fire_idempotent:
  "start_fire (start_fire w) = start_fire w \<and> (active (fire w) \<longrightarrow> start_fire w = w)"
  by (simp add: start_fire_def ignite_def)

theorem start_fire_idempotent_witness:
  "active (fire \<lparr>people = [], fire = ignite Fire_init 450 300, alarm_on = False, sched = []\<rparr>) \<and>
   start_fire \<lparr>people = [], fire = ignite Fire_init 450 300, alarm_on = False, sched = []\<rparr>
     = \<lparr>people = [], fire = ignite Fire_init 450 300, alarm_on = False, sched = []\<rparr> \<and>
   start_fire (start_fire \<lparr>people = [], fire = Fire_init, alarm_on = False, sched = []\<rparr>)
     = start_fire \<lparr>people = [], fire = Fire_init, alarm_on = False, sched = []\<rparr> \<and>
   fire (start_fire \<lparr>people = [], fire = Fire_init, alarm_on = False, sched = []\<rparr>)
     = \<lparr>cells = [(450, 300)], active = True, spread_procs = 1\<rparr>"
  using start_fire_idempotent[of "\<lparr>people = [], fire = ignite Fire_init 450 300, alarm_on = False, sched = []\<rparr>"]
    start_fire_idempotent[of "\<lparr>people = [], fire = Fire_init, alarm_on = False, sched = []\<rparr>"]
  by (simp add: start_fire_def ignite_def Fire_init_def)

text \<open>
  ignite on an active fire is not a no-op: it appends the cell again and registers
  a second spread generator.
\<close>

theorem ignite_active_not_noop:
  "active (ignite Fire_init 450 300) \<and>
   ignite Fire_init 450 300 = \<lparr>cells = [(450, 300)], active = True, spread_procs = 1\<rparr> \<and>
   ignite (ignite Fire_init 450 300) 450 300
     = \<lparr>cells = [(450, 300), (450, 300)], active = True, spread_procs = 2\<rparr> \<and>
   ignite (ignite Fire_init 450 300) 450 300 \<noteq> ignite Fire_init 450 300"
  by (simp add: ignite_def Fire_init_def)

text \<open>
  C8: a round of spread on an active fire with at least one cell appends exactly one
  cell. It is a cell c of the current list moved by integer offsets ox and oy of
  [-50, 50] and then clamped: its x lies in [50, SIM_WIDTH - 50] and its y in
  [50, HEIGHT - 50], which is inside the arena's vertical bounds [0, HEIGHT].
\<close>

theorem spread_appends_clamped:
  assumes "active f" "cells f \<noteq> []"
  shows "\<exists>c ox oy nx ny. c \<in> set (cells f) \<and> - 50 \<le> ox \<and> ox \<le> 50 \<and> - 50 \<le> oy \<and> oy \<le> 50
           \<and> nx = max 50 (min (SIM_WIDTH - 50) (fst c + ox))
           \<and> ny = max 50 (min (HEIGHT - 50) (snd c + oy))
           \<and> spread f rc rx ry = Inr (f\<lparr>cells := cells f @ [(nx, ny)]\<rparr>)
           \<and> 50 \<le> nx \<and> nx \<le> SIM_WIDTH - 50 \<and> 50 \<le> ny \<and> ny \<le> HEIGHT - 50
           \<and> 0 \<le> ny \<and> ny \<le> HEIGHT"
proof -
  let ?c = "cells f ! (rc mod length (cells f))"
  let ?ox = "randint (- 50) 50 rx"
  let ?oy = "randint (- 50) 50 ry"
  let ?nx = "max 50 (min (SIM_WIDTH - 50) (fst ?c + ?ox))"
  let ?ny = "max 50 (min (HEIGHT - 50) (snd ?c + ?oy))"
  have "rc mod length (cells f) < length (cells f)" using assms(2) by simp
  then have cin: "?c \<in> set (cells f)" by (rule nth_mem)
  have ox: "- 50 \<le> ?ox \<and> ?ox \<le> 50" by (rule randint_range) simp
  have oy: "- 50 \<le> ?oy \<and> ?oy \<le> 50" by (rule randint_range) simp
  have sp: "spread f rc rx ry = Inr (f\<lparr>cells := cells f @ [(?nx, ?ny)]\<rparr>)"
    using assms by (cases ?c) (simp add: spread_def choice_def Let_def)
  have bx: "50 \<le> ?nx \<and> ?nx \<le> SIM_WIDTH - 50" by (simp add: SIM_WIDTH_def)
  have by': "50 \<le> ?ny \<and> ?ny \<le> HEIGHT - 50 \<and> 0 \<le> ?ny \<and> ?ny \<le> HEIGHT"
    unfolding HEIGHT_def by linarith
  show ?thesis using cin ox oy sp bx by' by blast
qed

theorem spread_appends_clamped_witness:
  "active (ignite Fire_init 450 300) \<and> cells (ignite Fire_init 450 300) \<noteq> [] \<and>
   randint (- 50) 50 3 = - 47 \<and> randint (- 50) 50 4 = - 46 \<and>
   spread (ignite Fire_init 450 300) 7 3 4
     = Inr \<lparr>cells = [(450, 300), (403, 254)], active = True, spread_procs = 1\<rparr> \<and>
   spread \<lparr>cells = [(450, 300), (60, 590)], active = True, spread_procs = 1\<rparr> 1 0 100
     = Inr \<lparr>cells = [(450, 300), (60, 590), (50, 600)], active = True, spread_procs = 1\<rparr>"
  using spread_appends_clamped[of "ignite Fire_init 450 300" 7 3 4]
  by (simp add: spread_def choice_def randint_def ignite_def Fire_init_def SIM_WIDTH_def HEIGHT_def)



text \<open>
  C5: while the alarm is off, any number of ticks, whatever event the environment
  processes in each, leaves the list of people as it is: every position, panic and
  evacuated flag is unchanged, and no tick fails. The session is any one whose fire,
  if active, has a cell, and in which some person who is not evacuated has a
  \<open>Behavior\<close> event in the queue, so that the queue never runs empty. Every session
  that a run from a fresh session reaches with the alarm off is such a session
  (\<open>reachable_alarm_off\<close>).
\<close>

theorem alarm_off_ticks_frame:
  assumes "\<not> alarm_on w" "active (fire w) \<longrightarrow> cells (fire w) \<noteq> []"
    and "j < length (people w)" "\<not> evacuated (people w ! j)" "Behavior j \<in> set (sched w)"
  shows "\<exists>w'. run w (map Tick inps) = Inr w' \<and> people w' = people w \<and> \<not> alarm_on w'"
  using assms
proof (induction inps arbitrary: w)
  case Nil
  then show ?case by simp
next
  case (Cons inp inps)
  have ne: "sched w \<noteq> []" using Cons.prems(5) by auto
  obtain w1 where w1: "tick w inp = Inr w1" "alarm_on w1 = alarm_on w"
      "\<not> alarm_on w \<longrightarrow> people w1 = people w" "active (fire w1) \<longrightarrow> cells (fire w1) \<noteq> []"
      "\<forall>j. j < length (people w) \<and> \<not> evacuated (people w ! j)
                  \<and> Behavior j \<in> set (sched w) \<longrightarrow> Behavior j \<in> set (sched w1)"
    using tick_ok[OF Cons.prems(2) ne, of inp] by blast
  have same: "people w1 = people w" using w1(3) Cons.prems(1) by simp
  have q: "Behavior j \<in> set (sched w1)" using w1(5) Cons.prems(3,4,5) by blast
  have "\<not> alarm_on w1" using w1(2) Cons.prems(1) by simp
  then obtain w' where "run w1 (map Tick inps) = Inr w'" "people w' = people w1" "\<not> alarm_on w'"
    using Cons.IH[of w1] w1(4) q same Cons.prems(3,4) by auto
  then show ?case using w1(1) same by simp
qed


theorem alarm_off_ticks_frame_witness:
  "\<not> alarm_on \<lparr>people = [Person_init 830 120 (3 / 11)], fire = ignite Fire_init 450 300,
       alarm_on = False, sched = [Behavior 0, Spread_timeout]\<rparr> \<and>
   cells (fire \<lparr>people = [Person_init 830 120 (3 / 11)], fire = ignite Fire_init 450 300,
       alarm_on = False, sched = [Behavior 0, Spread_timeout]\<rparr>) \<noteq> [] \<and>
   \<not> evacuated ([Person_init 830 120 (3 / 11)] ! 0) \<and>
   run \<lparr>people = [Person_init 830 120 (3 / 11)], fire = ignite Fire_init 450 300,
       alarm_on = False, sched = [Behavior 0, Spread_timeout]\<rparr>
     (map Tick [(0, 0, 0, 0), (0, 0, 3, 4), (1, 0, 0, 0)])
   = Inr \<lparr>people = [Person_init 830 120 (3 / 11)],
        fire = \<lparr>cells = [(450, 300), (403, 254), (400, 250)], active = True, spread_procs = 1\<rparr>,
        alarm_on = False, sched = [Behavior 0, Spread_timeout]\<rparr>"
  using alarm_off_ticks_frame
    [of "\<lparr>people = [Person_init 830 120 (3 / 11)], fire = ignite Fire_init 450 300,
          alarm_on = False, sched = [Behavior 0, Spread_timeout]\<rparr>" 0
        "[(0, 0, 0, 0), (0, 0, 3, 4), (1, 0, 0, 0)]"]
  by (simp add: tick_def env_step_def remove_at_def spread_def choice_def randint_def ignite_def
      Fire_init_def Person_init_def SIM_WIDTH_def HEIGHT_def update_all_off Let_def)

text \<open>
  C9: in every session that a run of clicks and ticks from a fresh session reaches,
  an active fire has at least one cell. From there, every action but a reset either
  fails because the queue of the environment is empty (EmptySchedule, the only
  failure there is), or keeps the cells as a prefix of the new cells (so their number
  does not decrease) and keeps an active fire active; a reset replaces the fire by
  a fresh one, inert and without cells.
\<close>

theorem fire_grows_stays_active:
  assumes "run (init_world rnd) acts = Inr w"
  shows "(active (fire w) \<longrightarrow> cells (fire w) \<noteq> [])
      \<and> (\<forall>a. \<not> is_reset a \<longrightarrow>
            (act w a = Inl EmptySchedule \<and> sched w = [])
            \<or> (\<exists>w'. act w a = Inr w'
                 \<and> (\<exists>ys. cells (fire w') = cells (fire w) @ ys)
                 \<and> length (cells (fire w)) \<le> length (cells (fire w'))
                 \<and> (active (fire w) \<longrightarrow> active (fire w'))))
      \<and> (\<forall>rnd'. \<exists>w'. act w (Reset rnd') = Inr w' \<and> fire w' = Fire_init
               \<and> \<not> active (fire w') \<and> cells (fire w') = [])"
proof -
  have ok: "session_ok w" using run_ok[OF init_world_ok assms] .
  then have inv: "active (fire w) \<longrightarrow> cells (fire w) \<noteq> []" by (simp add: session_ok_def)
  have grow: "(act w a = Inl EmptySchedule \<and> sched w = [])
            \<or> (\<exists>w'. act w a = Inr w'
                 \<and> (\<exists>ys. cells (fire w') = cells (fire w) @ ys)
                 \<and> length (cells (fire w)) \<le> length (cells (fire w'))
                 \<and> (active (fire w) \<longrightarrow> active (fire w')))" if nr: "\<not> is_reset a" for a
  proof (cases "act w a = Inl EmptySchedule \<and> sched w = []")
    case True
    then show ?thesis by blast
  next
    case False
    then obtain w' where w': "act w a = Inr w'" "\<exists>ys. cells (fire w') = cells (fire w) @ ys"
        "active (fire w) \<longrightarrow> active (fire w')"
      using act_ok[OF ok, of a] nr by blast
    from w'(2) have "length (cells (fire w)) \<le> length (cells (fire w'))" by auto
    with w' show ?thesis by blast
  qed
  have rst: "\<exists>w'. act w (Reset rnd') = Inr w' \<and> fire w' = Fire_init
               \<and> \<not> active (fire w') \<and> cells (fire w') = []" for rnd'
    by (simp add: reset_def init_world_def Fire_init_def)
  show ?thesis using inv grow rst by blast
qed

theorem fire_grows_stays_active_witness:
  "run (init_world (\<lambda>i. (0, 0, 0))) [Start_fire, Tick (45, 0, 0, 0), Tick (45, 0, 3, 4)]
     = Inr \<lparr>people = new_people (\<lambda>i. (0, 0, 0)),
            fire = \<lparr>cells = [(450, 300), (403, 254)], active = True, spread_procs = 1\<rparr>,
            alarm_on = False,
            sched = map Behavior [0..<NUM_PEOPLE] @ [Spread_timeout]\<rparr> \<and>
   act \<lparr>people = new_people (\<lambda>i. (0, 0, 0)),
        fire = \<lparr>cells = [(450, 300), (403, 254)], active = True, spread_procs = 1\<rparr>,
        alarm_on = False,
        sched = map Behavior [0..<NUM_PEOPLE] @ [Spread_timeout]\<rparr> (Tick (45, 1, 100, 0))
     = Inr \<lparr>people = new_people (\<lambda>i. (0, 0, 0)),
            fire = \<lparr>cells = [(450, 300), (403, 254), (453, 204)], active = True,
                     spread_procs = 1\<rparr>,
            alarm_on = False,
            sched = map Behavior [0..<NUM_PEOPLE] @ [Spread_timeout]\<rparr>"
  using fire_grows_stays_active
    [of "\<lambda>i. (0, 0, 0)" "[Start_fire, Tick (45, 0, 0, 0), Tick (45, 0, 3, 4)]"]
  by (simp add: init_world_def start_fire_def tick_def env_step_def remove_at_def NUM_PEOPLE_def
      nth_append spread_def choice_def randint_def ignite_def Fire_init_def SIM_WIDTH_def
      HEIGHT_def update_all_off Let_def)


text \<open>
  C1, as the code has it: when update moves a person to a new position and the
  corner of the box around it (the position less 5 on each axis) has whole-number
  coordinates, the 10 by 10 box centred on the new position intersects no wall of
  WALLS. Nothing is said about the position drawn at construction.
\<close>

theorem committed_box_clear:
  assumes "update p cs al = Inr p'"
    and "pos_x p' \<noteq> pos_x p \<or> pos_y p' \<noteq> pos_y p"
    and "pos_x p' - 5 \<in> \<int>" "pos_y p' - 5 \<in> \<int>"
    and "w \<in> set WALLS"
  shows "\<not> centred_box_intersects (pos_x p', pos_y p') w"
proof -
  have busy: "al \<and> \<not> evacuated p"
  proof (rule ccontr)
    assume "\<not> (al \<and> \<not> evacuated p)"
    then have "update p cs al = Inr p" by (auto simp: update_def update_in_idle)
    with assms(1,2) show False by simp
  qed
  have upd: "update_in EXIT_POSITIONS WALLS p cs al = Inr p'" using assms(1) by (simp add: update_def)
  obtain e where e: "min_key (\<lambda>e. dist_pt (pos_x p, pos_y p) e) EXIT_POSITIONS = Inr e"
    using update_in_exit[OF upd] busy by blast
  obtain n where n: "next_pos p (smoke_panic (pos_x p, pos_y p) cs (panic p)) e = Inr n"
    using next_pos_Inr by blast
  let ?r = "Rect (fst n - 5) (snd n - 5) 10 10"
  have res: "\<not> hits_wall WALLS ?r \<and> pos_x p' = fst n \<and> pos_y p' = snd n"
    using upd busy assms(2) by (auto simp: update_in_busy[OF _ _ e n] Let_def split: if_splits)
  obtain kx where kx: "pos_x p' - 5 = of_int kx" using assms(3) by (rule Ints_cases)
  obtain ky where ky: "pos_y p' - 5 = of_int ky" using assms(4) by (rule Ints_cases)
  have r: "?r = \<lparr>rect_x = kx, rect_y = ky, rect_w = 10, rect_h = 10\<rparr>"
    using res kx ky by (simp add: Rect_def to_int_of_int) (simp add: to_int_def)
  have "\<not> colliderect w ?r" using res assms(5) by (auto simp: hits_wall_iff)
  then have "\<not> centred_box_intersects (of_int kx + 5, of_int ky + 5) w"
    using box_intersects_iff[of w kx ky] walls_positive[OF assms(5)] r by simp
  moreover have "pos_x p' = of_int kx + 5" "pos_y p' = of_int ky + 5" using kx ky by simp_all
  ultimately show ?thesis by simp
qed


theorem committed_box_clear_witness:
  "update (Person_init 830 120 (3 / 11)) [] True
     = Inr \<lparr>pos_x = 831, pos_y = 120, speed = 1, panic = 0, evacuated = False\<rparr> \<and>
   pos_x \<lparr>pos_x = 831, pos_y = 120, speed = 1, panic = 0, evacuated = False\<rparr>
     \<noteq> pos_x (Person_init 830 120 (3 / 11)) \<and>
   (831 :: real) - 5 \<in> \<int> \<and> (120 :: real) - 5 \<in> \<int> \<and>
   Rect 250 0 30 450 \<in> set WALLS \<and>
   \<not> centred_box_intersects (831, 120) (Rect 250 0 30 450)"
proof -
  let ?p = "Person_init 830 120 (3 / 11)"
  let ?p' = "\<lparr>pos_x = 831, pos_y = 120, speed = 1, panic = 0, evacuated = False\<rparr>"
  have step: "update ?p [] True = Inr ?p'"
    by (simp add: update_def update_in_def nearest_exit_upper step_simps)
  have moved: "pos_x ?p' \<noteq> pos_x ?p \<or> pos_y ?p' \<noteq> pos_y ?p" by (simp add: Person_init_def)
  have ix: "pos_x ?p' - 5 \<in> \<int>" by simp
  have iy: "pos_y ?p' - 5 \<in> \<int>" by simp
  have w: "Rect 250 0 30 450 \<in> set WALLS" by (simp add: WALLS_def)
  have "\<not> centred_box_intersects (pos_x ?p', pos_y ?p') (Rect 250 0 30 450)"
    by (rule committed_box_clear[OF step moved ix iy w])
  then show ?thesis using step w by (simp add: Person_init_def)
qed

text \<open>
  The claim fails at a position drawn at construction, which is never tested
  against the walls: the draws 260 and 100 put the first person inside the first
  wall. It also fails at a position that update commits: from the drawn position
  (244, 120), whose box is clear of every wall, a person of speed 1.1 is moved to
  (245.1, 120), and the box centred there reaches 250.1, into the first wall.
\<close>

theorem box_in_wall:
  "randint 50 700 210 = 260 \<and> randint 50 600 50 = 100 \<and>
   people (init_world (\<lambda>i. (210, 50, 3 / 11))) ! 0 = Person_init 260 100 (3 / 11) \<and>
   centred_box_intersects (260, 100) (WALLS ! 0) \<and>
   randint 50 700 194 = 244 \<and> randint 50 600 70 = 120 \<and>
   people (init_world (\<lambda>i. (194, 70, 1 / 2))) ! 0 = Person_init 244 120 (1 / 2) \<and>
   \<not> centred_box_intersects (244, 120) (WALLS ! 0) \<and>
   \<not> centred_box_intersects (244, 120) (WALLS ! 1) \<and>
   \<not> centred_box_intersects (244, 120) (WALLS ! 2) \<and>
   update (Person_init 244 120 (1 / 2)) [] True
     = Inr \<lparr>pos_x = 2451 / 10, pos_y = 120, speed = 11 / 10, panic = 0, evacuated = False\<rparr> \<and>
   centred_box_intersects (2451 / 10, 120) (WALLS ! 0)"
proof -
  have draws: "randint 50 700 210 = 260 \<and> randint 50 600 50 = 100
      \<and> randint 50 700 194 = 244 \<and> randint 50 600 70 = 120"
    by (simp add: randint_def)
  have first: "people (init_world (\<lambda>i. (210, 50, 3 / 11))) ! 0 = Person_init 260 100 (3 / 11)"
    by (simp add: init_world_def new_people_def NUM_PEOPLE_def randint_def)
  have second: "people (init_world (\<lambda>i. (194, 70, 1 / 2))) ! 0 = Person_init 244 120 (1 / 2)"
    by (simp add: init_world_def new_people_def NUM_PEOPLE_def randint_def)
  have inside: "centred_box_intersects (260, 100) (WALLS ! 0)"
    by (simp add: centred_box_intersects_def WALLS_def Rect_def to_int_def)
  have clear: "\<not> centred_box_intersects (244, 120) (WALLS ! 0)
      \<and> \<not> centred_box_intersects (244, 120) (WALLS ! 1)
      \<and> \<not> centred_box_intersects (244, 120) (WALLS ! 2)"
    by (simp add: centred_box_intersects_def WALLS_def Rect_def to_int_def)
  have step: "update (Person_init 244 120 (1 / 2)) [] True
     = Inr \<lparr>pos_x = 2451 / 10, pos_y = 120, speed = 11 / 10, panic = 0, evacuated = False\<rparr>"
    by (simp add: update_def update_in_def nearest_exit_upper step_simps)
  have after: "centred_box_intersects (2451 / 10, 120) (WALLS ! 0)"
    by (simp add: centred_box_intersects_def WALLS_def Rect_def to_int_def)
  show ?thesis using draws first second inside clear step after by blast
qed


end
